theory Spec2Isabelle
  imports Complex_Main
begin

section \<open>Numbers and data\<close>

text \<open>
  The engine is TypeScript; every quantity below is a JavaScript \<^verbatim>\<open>number\<close>, an IEEE
  754 double. The embedding reads a finite double as the real number it denotes.
  Comparisons, \<^verbatim>\<open>Math.max\<close>, \<^verbatim>\<open>Math.min\<close> and \<^verbatim>\<open>Math.floor\<close> are exact on doubles and
  are the real ones. An arithmetic operation of the language returns the double
  nearest to the exact result, ties to the even significand; \<open>fl\<close> below is that
  rounding, and a decimal literal such as \<^verbatim>\<open>0.1\<close> denotes \<open>fl 0.1\<close>. The sum and the
  difference in \<^verbatim>\<open>getKeepRanges\<close> and the products of the projection in \<^verbatim>\<open>scanFrame\<close>
  are written with their rounding; the remaining arithmetic (the difference of the
  clusterer, the overlap ratio, the color conversion, the normalization) is taken
  exact. \<^verbatim>\<open>NaN\<close> and the infinities are not values of the model.
\<close>

text \<open>The position of the leading bit of a positive integer.\<close>

fun ilog2 :: "nat \<Rightarrow> nat" where
  "ilog2 n = (if n < 2 then 0 else Suc (ilog2 (n div 2)))"

declare ilog2.simps [simp del]

text \<open>The binary exponent \<open>e\<close> of a nonzero real: \<open>2 powi e \<le> \<bar>x\<bar> < 2 powi (e + 1)\<close>.\<close>

definition binade :: "real \<Rightarrow> int" where
  "binade x =
     (if 1 \<le> \<bar>x\<bar> then int (ilog2 (nat \<lfloor>\<bar>x\<bar>\<rfloor>))
      else - int (ilog2 (nat (\<lceil>1 / \<bar>x\<bar>\<rceil> - 1))) - 1)"

text \<open>Rounding to the nearest integer, a tie going to the even one.\<close>

definition round_half_even :: "real \<Rightarrow> int" where
  "round_half_even y =
     (let f = \<lfloor>y\<rfloor>; r = y - of_int f
      in if r < 1 / 2 then f else if 1 / 2 < r then f + 1 else if even f then f else f + 1)"

text \<open>
  The spacing of the doubles around \<open>x\<close>: 53 significant bits, and the fixed spacing
  \<open>2 powi (- 1074)\<close> of the subnormal range below \<open>2 powi (- 1022)\<close>.
\<close>

definition ulp :: "real \<Rightarrow> real" where
  "ulp x = 2 powi (max (binade x) (- 1022) - 52)"

definition fl :: "real \<Rightarrow> real" where
  "fl x = (if x = 0 then 0 else of_int (round_half_even (x / ulp x)) * ulp x)"

text \<open>The reals that are finite doubles.\<close>

definition is_double :: "real \<Rightarrow> bool" where
  "is_double x \<longleftrightarrow> fl x = x \<and> \<bar>x\<bar> < 2 ^ 1024"

text \<open>
  \<^verbatim>\<open>interface Range { start: number; end: number }\<close> (utils/ffmpegBuilder.ts) and
  \<^verbatim>\<open>interface DetectionRange { start; end; confidence }\<close> (the vision hook), which
  extends it structurally.
\<close>

record range =
  range_start :: real
  range_end :: real

record detection_range = range +
  confidence :: real

section \<open>Range inverter: \<^verbatim>\<open>getKeepRanges\<close> (App.tsx)\<close>

text \<open>
  One pass of the \<^verbatim>\<open>forEach\<close> body over the state \<open>(keep, currentCursor)\<close>:
  push the segment before the detection when \<^verbatim>\<open>det.start > currentCursor + 0.1\<close>, the
  sum being the double sum, then move the cursor to
  \<^verbatim>\<open>Math.max(currentCursor, det.end)\<close>.
\<close>

definition sweep_step :: "detection_range \<Rightarrow> range list \<times> real \<Rightarrow> range list \<times> real" where
  "sweep_step det st =
     (case st of (keep, currentCursor) \<Rightarrow>
        (if range_start det > fl (currentCursor + fl 0.1)
         then keep @ [\<lparr>range_start = currentCursor, range_end = range_start det\<rparr>]
         else keep,
         max currentCursor (range_end det)))"

text \<open>The whole \<^verbatim>\<open>forEach\<close>, from \<^verbatim>\<open>keep = []\<close> and \<^verbatim>\<open>currentCursor = 0\<close>.\<close>

definition sweep :: "detection_range list \<Rightarrow> range list \<times> real" where
  "sweep sortedDetections = fold sweep_step sortedDetections ([], 0)"

text \<open>
  \<^verbatim>\<open>[...detections].sort((a, b) => a.start - b.start)\<close>: a stable sort on \<^verbatim>\<open>start\<close>
  (the difference of two doubles has the sign of their exact difference).
\<close>

definition sortedDetections :: "detection_range list \<Rightarrow> detection_range list" where
  "sortedDetections detections = sort_key range_start detections"

definition getKeepRanges :: "real \<Rightarrow> detection_range list \<Rightarrow> range list" where
  "getKeepRanges videoDuration detections =
     (if videoDuration = 0 then []
      else if length detections = 0 then [\<lparr>range_start = 0, range_end = videoDuration\<rparr>]
      else
        (case sweep (sortedDetections detections) of (keep, currentCursor) \<Rightarrow>
           if currentCursor < fl (videoDuration - fl 0.1)
           then keep @ [\<lparr>range_start = currentCursor, range_end = videoDuration\<rparr>]
           else keep))"

section \<open>Temporal clusterer: \<^verbatim>\<open>processDetections\<close> (the vision hook)\<close>

definition TOLERANCE :: real where
  "TOLERANCE = 0.5"

text \<open>
  The \<^verbatim>\<open>for\<close> loop over \<^verbatim>\<open>sorted[1..]\<close>, with the loop state \<open>(ranges, start, prev)\<close>
  passed along.
\<close>

fun cluster_loop ::
  "real list \<Rightarrow> detection_range list \<Rightarrow> real \<Rightarrow> real \<Rightarrow> detection_range list \<times> real \<times> real" where
  "cluster_loop [] ranges st prev = (ranges, st, prev)"
| "cluster_loop (cur # rest) ranges st prev =
     (if cur - prev > TOLERANCE
      then cluster_loop rest
             (ranges @ [\<lparr>range_start = st, range_end = prev, confidence = 1.0\<rparr>]) cur cur
      else cluster_loop rest ranges st cur)"

definition processDetections :: "real list \<Rightarrow> detection_range list" where
  "processDetections timestamps =
     (if length timestamps = 0 then []
      else
        (let sorted = sort timestamps in
         case cluster_loop (drop 1 sorted) [] (sorted ! 0) (sorted ! 0) of
           (ranges, st, prev) \<Rightarrow>
             ranges @ [\<lparr>range_start = st, range_end = prev, confidence = 1.0\<rparr>]))"

section \<open>Rectangles and overlap: \<^verbatim>\<open>calculateIoU\<close> (utils/visionDetection.ts)\<close>

text \<open>
  An OpenCV \<^verbatim>\<open>Rect\<close> \<^verbatim>\<open>{x, y, width, height}\<close>; \<^verbatim>\<open>calculateIoU\<close> takes its arguments
  as \<^verbatim>\<open>any\<close>, so the fields are numbers.
\<close>

record rect =
  rect_x :: real
  rect_y :: real
  rect_width :: real
  rect_height :: real

definition calculateIoU :: "rect \<Rightarrow> rect \<Rightarrow> real" where
  "calculateIoU rectA rectB =
     (let xA = max (rect_x rectA) (rect_x rectB);
          yA = max (rect_y rectA) (rect_y rectB);
          xB = min (rect_x rectA + rect_width rectA) (rect_x rectB + rect_width rectB);
          yB = min (rect_y rectA + rect_height rectA) (rect_y rectB + rect_height rectB);
          interW = max 0 (xB - xA);
          interH = max 0 (yB - yA)
      in if interW \<le> 0 \<or> interH \<le> 0 then 0
         else
           (let interArea = interW * interH;
                areaA = rect_width rectA * rect_height rectA;
                areaB = rect_width rectB * rect_height rectB;
                unionArea = areaA + areaB - interArea
            in if unionArea > 0 then interArea / unionArea else 0))"

text \<open>
  The interior of a rectangle as a set of points of the plane; the notion of overlap
  that the properties of the overlap ratio are stated with.
\<close>

definition rect_interior :: "rect \<Rightarrow> (real \<times> real) set" where
  "rect_interior r =
     {(px, py). rect_x r < px \<and> px < rect_x r + rect_width r \<and>
                rect_y r < py \<and> py < rect_y r + rect_height r}"

section \<open>Color profile builder: \<^verbatim>\<open>getHsvRange\<close> (utils/visionCalibration.ts)\<close>

text \<open>
  \<^verbatim>\<open>interface HSVRange { lower: number[]; upper: number[] }\<close>: four-element arrays
  (hue, saturation, value, alpha). The tolerance is the object \<^verbatim>\<open>{h, s, v}\<close>.
\<close>

record hsv_range =
  lower :: "real list"
  upper :: "real list"

record tolerance =
  tol_h :: real
  tol_s :: real
  tol_v :: real

text \<open>
  The JavaScript remainder \<^verbatim>\<open>a % n\<close> on numbers: the quotient is truncated towards
  zero, so the result has the sign of the dividend.
\<close>

definition js_rem :: "real \<Rightarrow> real \<Rightarrow> real" where
  "js_rem a n = a - n * of_int (if 0 \<le> a / n then \<lfloor>a / n\<rfloor> else \<lceil>a / n\<rceil>)"

text \<open>
  \<^verbatim>\<open>rgb\<close> is read at the indices 0, 1 and 2 only, and every caller passes a
  three-element array, so it is a triple here.
\<close>

definition getHsvRange :: "real \<times> real \<times> real \<Rightarrow> tolerance \<Rightarrow> hsv_range" where
  "getHsvRange rgb tol =
     (case rgb of (rgb0, rgb1, rgb2) \<Rightarrow>
        (let r = rgb0 / 255;
             g = rgb1 / 255;
             b = rgb2 / 255;
             mx = max (max r g) b;
             mn = min (min r g) b;
             delta = mx - mn;
             h0 = (if delta = 0 then 0
                   else if mx = r then 60 * js_rem ((g - b) / delta) 6
                   else if mx = g then 60 * (((b - r) / delta) + 2)
                   else if mx = b then 60 * (((r - g) / delta) + 4)
                   else 0);
             h = (if h0 < 0 then h0 + 360 else h0);
             s = (if mx = 0 then 0 else delta / mx);
             v = mx;
             cvH = h / 2;
             cvS = s * 255;
             cvV = v * 255
         in \<lparr>lower = [max 0 (cvH - tol_h tol), max 0 (cvS - tol_s tol), max 0 (cvV - tol_v tol), 0],
             upper = [min 180 (cvH + tol_h tol), min 255 (cvS + tol_s tol),
                      min 255 (cvV + tol_v tol), 255]\<rparr>))"

text \<open>The default value of the \<^verbatim>\<open>tolerance\<close> parameter.\<close>

definition default_tolerance :: tolerance where
  "default_tolerance = \<lparr>tol_h = 10, tol_s = 40, tol_v = 40\<rparr>"

text \<open>\<^verbatim>\<open>TARGET_COLORS\<close>.\<close>

definition MENU_DARK :: "real \<times> real \<times> real" where
  "MENU_DARK = (14, 4, 49)"

definition MENU_LIGHT :: "real \<times> real \<times> real" where
  "MENU_LIGHT = (50, 4, 139)"

definition TEXT_WHITE :: "real \<times> real \<times> real" where
  "TEXT_WHITE = (255, 255, 255)"

section \<open>The profile and what OpenCV reports\<close>

text \<open>\<^verbatim>\<open>interface VisionProfile\<close>.\<close>

record normalized_box =
  nb_x :: real
  nb_y :: real
  nb_w :: real
  nb_h :: real

record spatial_template =
  normalizedBox :: normalized_box
  aspectRatio :: real

record profile_bounds =
  dark :: hsv_range
  light :: hsv_range
  white :: hsv_range

record vision_profile =
  bounds :: profile_bounds
  spatial :: spatial_template

text \<open>
  OpenCV is an external library (the global \<^verbatim>\<open>cv\<close>); the embedding takes what it
  reports about a matrix as part of the matrix. A contour is known by
  \<^verbatim>\<open>cv.contourArea\<close> and \<^verbatim>\<open>cv.boundingRect\<close>. For a matrix:
  \<^item> \<open>cols\<close>, \<open>rows\<close>: its size;
  \<^item> \<open>findContours range\<close>: the external contours of the mask
    \<^verbatim>\<open>inRange(hsv, range.lower, range.upper)\<close> of its HSV conversion, in the order
    \<^verbatim>\<open>cv.findContours\<close> lists them; \<open>None\<close> when a library call of this stage throws;
  \<^item> \<open>countInRange rect range\<close>: \<^verbatim>\<open>countNonZero\<close> of the mask
    \<^verbatim>\<open>inRange(hsv.roi(rect), range.lower, range.upper)\<close>; \<open>None\<close> when a library call
    of this stage throws.
\<close>

record cv_contour =
  contourArea :: real
  boundingRect :: rect

record cv_mat =
  cols :: nat
  rows :: nat
  findContours :: "hsv_range \<Rightarrow> cv_contour list option"
  countInRange :: "rect \<Rightarrow> hsv_range \<Rightarrow> nat option"

section \<open>Frame scanner: \<^verbatim>\<open>scanFrame\<close> (utils/visionDetection.ts)\<close>

text \<open>
  The inner \<^verbatim>\<open>try\<close> block of the loop (step 4): the value is whether it sets
  \<^verbatim>\<open>detected\<close>. An exception inside it is caught and logged, and leaves
  \<^verbatim>\<open>detected\<close> false.
\<close>

definition triadCheck :: "cv_mat \<Rightarrow> vision_profile \<Rightarrow> rect \<Rightarrow> bool" where
  "triadCheck hsv profile r =
     (let area = rect_width r * rect_height r in
      case countInRange hsv r (light (bounds profile)) of
        None \<Rightarrow> False
      | Some lightCount \<Rightarrow>
          (let lightRatio = real lightCount / area in
           case countInRange hsv r (white (bounds profile)) of
             None \<Rightarrow> False
           | Some whiteCount \<Rightarrow>
               (let whiteRatio = real whiteCount / area in
                lightRatio > 0.01 \<and> whiteRatio > 0.01)))"

text \<open>
  The loop over the contours (step 3): \<^verbatim>\<open>continue\<close> below 0.3, \<^verbatim>\<open>break\<close> once
  \<^verbatim>\<open>detected\<close> is set. The value is \<^verbatim>\<open>detected\<close> after the loop.
\<close>

fun scan_loop :: "cv_mat \<Rightarrow> vision_profile \<Rightarrow> rect \<Rightarrow> cv_contour list \<Rightarrow> bool" where
  "scan_loop hsv profile expectedRect [] = False"
| "scan_loop hsv profile expectedRect (contour # rest) =
     (let r = boundingRect contour;
          iou = calculateIoU r expectedRect
      in if iou < 0.3 then scan_loop hsv profile expectedRect rest
         else if triadCheck hsv profile r then True
         else scan_loop hsv profile expectedRect rest)"

text \<open>
  Step 1 projects the normalized box onto the frame: \<^verbatim>\<open>Math.floor\<close> of the double
  product. \<open>cv_loaded\<close> is
  \<^verbatim>\<open>typeof cv !== 'undefined'\<close>. The \<^verbatim>\<open>debugMode\<close> parameter only switches console
  output and is left out.
\<close>

definition expectedRect :: "cv_mat \<Rightarrow> vision_profile \<Rightarrow> rect" where
  "expectedRect srcFrame profile =
     (let fw = real (cols srcFrame);
          fh = real (rows srcFrame);
          nb = normalizedBox (spatial profile)
      in \<lparr>rect_x = of_int \<lfloor>fl (nb_x nb * fw)\<rfloor>,
          rect_y = of_int \<lfloor>fl (nb_y nb * fh)\<rfloor>,
          rect_width = of_int \<lfloor>fl (nb_w nb * fw)\<rfloor>,
          rect_height = of_int \<lfloor>fl (nb_h nb * fh)\<rfloor>\<rparr>)"

definition scanFrame :: "bool \<Rightarrow> cv_mat \<Rightarrow> vision_profile \<Rightarrow> bool" where
  "scanFrame cv_loaded srcFrame profile =
     (if \<not> cv_loaded then False
      else
        (case findContours srcFrame (dark (bounds profile)) of
           None \<Rightarrow> False
         | Some contours \<Rightarrow> scan_loop srcFrame profile (expectedRect srcFrame profile) contours))"

section \<open>Reference calibrator: \<^verbatim>\<open>calibrateReference\<close> (utils/visionCalibration.ts)\<close>

datatype error = OpenCVNotLoaded | CvException | CalibrationFailed

text \<open>The loop that finds the largest contour, with \<open>(maxArea, bestRect)\<close> passed along.\<close>

fun largest_loop :: "cv_contour list \<Rightarrow> real \<Rightarrow> rect option \<Rightarrow> real \<times> rect option" where
  "largest_loop [] maxArea bestRect = (maxArea, bestRect)"
| "largest_loop (cnt # rest) maxArea bestRect =
     (let area = contourArea cnt in
      if area > maxArea then largest_loop rest area (Some (boundingRect cnt))
      else largest_loop rest maxArea bestRect)"

definition whiteBounds :: hsv_range where
  "whiteBounds = \<lparr>lower = [0, 0, 200, 0], upper = [180, 30, 255, 255]\<rparr>"

text \<open>
  \<open>src\<close> is the matrix \<^verbatim>\<open>cv.imread(image)\<close>. The three ways out by \<^verbatim>\<open>throw\<close> are the
  three errors: the guard at the top, an exception of the library rethrown by the
  \<^verbatim>\<open>catch\<close>, and the failed threshold test.
\<close>

definition calibrateReference :: "bool \<Rightarrow> cv_mat \<Rightarrow> error + vision_profile" where
  "calibrateReference cv_loaded src =
     (if \<not> cv_loaded then Inl OpenCVNotLoaded
      else
        (let darkBounds = getHsvRange MENU_DARK \<lparr>tol_h = 20, tol_s = 50, tol_v = 50\<rparr>;
             lightBounds = getHsvRange MENU_LIGHT \<lparr>tol_h = 15, tol_s = 50, tol_v = 50\<rparr>
         in case findContours src darkBounds of
              None \<Rightarrow> Inl CvException
            | Some contours \<Rightarrow>
                (case largest_loop contours 0 None of
                   (maxArea, bestRect) \<Rightarrow>
                     (let totalPixels = real (cols src * rows src) in
                      case bestRect of
                        None \<Rightarrow> Inl CalibrationFailed
                      | Some best \<Rightarrow>
                          if maxArea > totalPixels * 0.01
                          then Inr \<lparr>bounds = \<lparr>dark = darkBounds, light = lightBounds,
                                             white = whiteBounds\<rparr>,
                                    spatial =
                                      \<lparr>normalizedBox =
                                         \<lparr>nb_x = rect_x best / real (cols src),
                                          nb_y = rect_y best / real (rows src),
                                          nb_w = rect_width best / real (cols src),
                                          nb_h = rect_height best / real (rows src)\<rparr>,
                                       aspectRatio = rect_width best / rect_height best\<rparr>\<rparr>
                          else Inl CalibrationFailed))))"

section \<open>Notions the interval properties are stated with\<close>

text \<open>A point of the timeline lies in a range when it is between its two ends.\<close>

definition in_range :: "real \<Rightarrow> 'a range_scheme \<Rightarrow> bool" where
  "in_range p r \<longleftrightarrow> range_start r \<le> p \<and> p \<le> range_end r"

text \<open>
  A detection list that is sorted, pairwise disjoint and contained in \<open>[0, D]\<close>:
  every detection has \<open>0 \<le> start \<le> end \<le> D\<close>, and each one ends no later than
  every later one starts.
\<close>

definition sorted_disjoint_within :: "real \<Rightarrow> detection_range list \<Rightarrow> bool" where
  "sorted_disjoint_within D dets \<longleftrightarrow>
     (\<forall>d \<in> set dets. 0 \<le> range_start d \<and> range_start d \<le> range_end d \<and> range_end d \<le> D) \<and>
     sorted_wrt (\<lambda>a b. range_end a \<le> range_start b) dets"

text \<open>
  The gaps such a list leaves in \<open>[0, D]\<close>: from 0 to the first start, from each end
  to the next start, and from the last end to \<open>D\<close>.
\<close>

fun gaps_from :: "real \<Rightarrow> detection_range list \<Rightarrow> real \<Rightarrow> range list" where
  "gaps_from c [] D = [\<lparr>range_start = c, range_end = D\<rparr>]"
| "gaps_from c (d # ds) D =
     \<lparr>range_start = c, range_end = range_start d\<rparr> # gaps_from (range_end d) ds D"

definition gaps :: "real \<Rightarrow> detection_range list \<Rightarrow> range list" where
  "gaps D dets = gaps_from 0 dets D"

text \<open>
  Round-trip coverage of a point \<open>p\<close>: it lies in a detection, or in a range that
  \<^verbatim>\<open>getKeepRanges\<close> returns, or in a gap that is short. With \<open>strict\<close> a short gap is
  one of length below 0.1; without, one of length at most 0.1 plus the rounding
  allowance \<open>(D + 1) / 2 ^ 53\<close>.
\<close>

definition roundtrip_covered :: "bool \<Rightarrow> real \<Rightarrow> detection_range list \<Rightarrow> real \<Rightarrow> bool" where
  "roundtrip_covered strict D dets p \<longleftrightarrow>
     (\<exists>d \<in> set dets. in_range p d) \<or>
     (\<exists>k \<in> set (getKeepRanges D dets). in_range p k) \<or>
     (\<exists>g \<in> set (gaps D dets). in_range p g \<and>
        (if strict then range_end g - range_start g < 0.1
         else range_end g - range_start g \<le> 0.1 + (D + 1) / 2 ^ 53))"

text \<open>
  Two ranges of the timeline are disjoint when one ends no later than the other
  starts: they have no stretch of time in common.
\<close>

definition disjoint_ranges :: "range \<Rightarrow> range \<Rightarrow> bool" where
  "disjoint_ranges a b \<longleftrightarrow> range_end a \<le> range_start b \<or> range_end b \<le> range_start a"

section \<open>Sample inputs\<close>

text \<open>
  A 640 by 320 frame on which OpenCV reports one background contour with the bounding
  box \<open>(0, 0, 100, 100)\<close> and 500 matching pixels for every color range asked in
  a region, a profile whose normalized box projects onto that bounding box, and a
  100 by 100 reference image with one contour of area 500.
\<close>

definition sample_frame :: cv_mat where
  "sample_frame =
     \<lparr>cols = 640, rows = 320,
      findContours = (\<lambda>_. Some [\<lparr>contourArea = 10000,
          boundingRect = \<lparr>rect_x = 0, rect_y = 0, rect_width = 100, rect_height = 100\<rparr>\<rparr>]),
      countInRange = (\<lambda>_ _. Some 500)\<rparr>"

definition sample_profile :: vision_profile where
  "sample_profile =
     \<lparr>bounds = \<lparr>dark = whiteBounds, light = whiteBounds, white = whiteBounds\<rparr>,
      spatial = \<lparr>normalizedBox = \<lparr>nb_x = 0, nb_y = 0, nb_w = 100 / 640, nb_h = 100 / 320\<rparr>,
                 aspectRatio = 1\<rparr>\<rparr>"

definition sample_reference :: cv_mat where
  "sample_reference =
     \<lparr>cols = 100, rows = 100,
      findContours = (\<lambda>_. Some [\<lparr>contourArea = 500,
          boundingRect = \<lparr>rect_x = 10, rect_y = 20, rect_width = 30, rect_height = 40\<rparr>\<rparr>]),
      countInRange = (\<lambda>_ _. Some 0)\<rparr>"

section \<open>Rounding to the nearest double\<close>

text \<open>The equations that evaluate \<open>fl\<close> at a numeral.\<close>

lemmas fl_eval = fl_def ulp_def binade_def round_half_even_def ilog2.simps Let_def

lemma fl_tenth: "fl 0.1 = 3602879701896397 / 36028797018963968"
  by (simp add: fl_eval)

lemma ilog2_bounds: "1 \<le> n \<Longrightarrow> 2 ^ ilog2 n \<le> n \<and> n < 2 ^ Suc (ilog2 n)"
proof (induction n rule: ilog2.induct)
  case (1 n)
  show ?case
  proof (cases "n < 2")
    case True
    with "1.prems" have "n = 1" by simp
    then show ?thesis by (simp add: ilog2.simps)
  next
    case False
    then have "1 \<le> n div 2" by simp
    from "1.IH"[OF False this] have ih: "2 ^ ilog2 (n div 2) \<le> n div 2" "n div 2 < 2 ^ Suc (ilog2 (n div 2))"
      by simp_all
    have eq: "ilog2 n = Suc (ilog2 (n div 2))" using False by (subst ilog2.simps) simp
    from ih(1) have "2 * 2 ^ ilog2 (n div 2) \<le> n" by linarith
    moreover from ih(2) have "n < 2 * 2 ^ Suc (ilog2 (n div 2))" by linarith
    ultimately show ?thesis by (simp add: eq)
  qed
qed

lemma binade_bounds:
  assumes "x \<noteq> 0"
  shows "2 powi binade x \<le> \<bar>x\<bar>" "\<bar>x\<bar> < 2 powi (binade x + 1)"
proof -
  define a where "a = \<bar>x\<bar>"
  have a: "0 < a" using assms by (simp add: a_def)
  have "2 powi binade x \<le> a \<and> a < 2 powi (binade x + 1)"
  proof (cases "1 \<le> a")
    case True
    define n where "n = nat \<lfloor>a\<rfloor>"
    have n1: "1 \<le> n" using True by (simp add: n_def le_nat_iff le_floor_iff)
    have nle: "real n \<le> a" using True by (simp add: n_def)
    have alt: "a < real n + 1" using True a by (simp add: n_def)
    from ilog2_bounds[OF n1] have b: "2 ^ ilog2 n \<le> n" "n < 2 ^ Suc (ilog2 n)" by simp_all
    have e: "binade x = int (ilog2 n)" using True by (simp add: binade_def a_def n_def)
    have "real (2 ^ ilog2 n) \<le> real n" using b(1) by (rule of_nat_mono)
    then have "(2::real) ^ ilog2 n \<le> real n" by simp
    then have lo: "(2::real) ^ ilog2 n \<le> a" using nle by linarith
    have "Suc n \<le> 2 ^ Suc (ilog2 n)" using b(2) by simp
    then have "real (Suc n) \<le> real (2 ^ Suc (ilog2 n))" by (rule of_nat_mono)
    then have "real n + 1 \<le> 2 ^ Suc (ilog2 n)" by simp
    then have hi: "a < 2 ^ Suc (ilog2 n)" using alt by linarith
    have "int (ilog2 n) + 1 = int (Suc (ilog2 n))" by simp
    then have "2 powi (int (ilog2 n) + 1) = (2::real) ^ Suc (ilog2 n)"
      by (simp only: power_int_of_nat)
    then show ?thesis using lo hi by (simp add: e)
  next
    case False
    define y where "y = 1 / a"
    have y1: "1 < y" using False a by (simp add: y_def)
    define c where "c = \<lceil>y\<rceil>"
    define m where "m = nat (c - 1)"
    have cc: "of_int c - 1 < y" "y \<le> of_int c" unfolding c_def using ceiling_correct[of y] by simp_all
    have "1 < real_of_int c" using y1 cc(2) by linarith
    then have cy: "2 \<le> c" by linarith
    have m1: "1 \<le> m" unfolding m_def using cy by linarith
    have rm: "real m = of_int c - 1" unfolding m_def using cy by simp
    have mlt: "real m < y" using cc(1) rm by linarith
    have yle: "y \<le> real m + 1" using cc(2) rm by linarith
    from ilog2_bounds[OF m1] have b: "2 ^ ilog2 m \<le> m" "m < 2 ^ Suc (ilog2 m)" by simp_all
    have e: "binade x = - int (ilog2 m) - 1" using False by (simp add: binade_def a_def m_def c_def y_def)
    have "real (2 ^ ilog2 m) \<le> real m" using b(1) by (rule of_nat_mono)
    then have "(2::real) ^ ilog2 m \<le> real m" by simp
    then have lo: "(2::real) ^ ilog2 m < y" using mlt by linarith
    have "Suc m \<le> 2 ^ Suc (ilog2 m)" using b(2) by simp
    then have "real (Suc m) \<le> real (2 ^ Suc (ilog2 m))" by (rule of_nat_mono)
    then have "real m + 1 \<le> 2 ^ Suc (ilog2 m)" by simp
    then have hi: "y \<le> 2 ^ Suc (ilog2 m)" using yle by linarith
    have ay: "a = 1 / y" using a by (simp add: y_def)
    have 1: "1 / 2 ^ Suc (ilog2 m) \<le> a"
      unfolding ay using hi y1 by (intro divide_left_mono) simp_all
    have 2: "a < 1 / 2 ^ ilog2 m"
      unfolding ay using lo y1 by (intro divide_strict_left_mono) simp_all
    have "- int (ilog2 m) - 1 = - int (Suc (ilog2 m))" by simp
    then have p1: "2 powi (- int (ilog2 m) - 1) = 1 / (2::real) ^ Suc (ilog2 m)"
      by (simp only: power_int_minus_divide power_int_of_nat)
    have "- int (ilog2 m) - 1 + 1 = - int (ilog2 m)" by simp
    then have p2: "2 powi (- int (ilog2 m) - 1 + 1) = 1 / (2::real) ^ ilog2 m"
      by (simp only: power_int_minus_divide power_int_of_nat)
    show ?thesis unfolding e p1 p2 using 1 2 by simp
  qed
  then show "2 powi binade x \<le> \<bar>x\<bar>" "\<bar>x\<bar> < 2 powi (binade x + 1)" by (simp_all add: a_def)
qed


lemma rhe_floor: "\<lfloor>y\<rfloor> \<le> round_half_even y" "round_half_even y \<le> \<lfloor>y\<rfloor> + 1"
  by (simp_all add: round_half_even_def Let_def)

lemma rhe_err: "\<bar>of_int (round_half_even y) - y\<bar> \<le> 1 / 2"
proof -
  have "of_int \<lfloor>y\<rfloor> \<le> y" "y < of_int \<lfloor>y\<rfloor> + 1" by linarith+
  then show ?thesis by (auto simp: round_half_even_def Let_def)
qed

lemma rhe_ge:
  assumes "of_int n \<le> y"
  shows "n \<le> round_half_even y"
proof -
  have "n \<le> \<lfloor>y\<rfloor>" using assms by (simp add: le_floor_iff)
  then show ?thesis using rhe_floor(1)[of y] by linarith
qed

lemma rhe_le:
  assumes "y \<le> of_int n"
  shows "round_half_even y \<le> n"
proof (cases "y = of_int n")
  case True
  then show ?thesis by (simp add: round_half_even_def)
next
  case False
  then have "y < of_int n" using assms by simp
  then have "\<lfloor>y\<rfloor> < n" by (simp add: floor_less_iff)
  then show ?thesis using rhe_floor(2)[of y] by linarith
qed

lemma rhe_mono:
  assumes "a \<le> b"
  shows "round_half_even a \<le> round_half_even b"
proof (cases "\<lfloor>a\<rfloor> < \<lfloor>b\<rfloor>")
  case True
  then show ?thesis using rhe_floor(2)[of a] rhe_floor(1)[of b] by linarith
next
  case False
  then have "\<lfloor>a\<rfloor> = \<lfloor>b\<rfloor>" using floor_mono[OF assms] by linarith
  then show ?thesis using assms by (auto simp: round_half_even_def Let_def)
qed

lemma ulp_pos: "0 < ulp x"
  by (simp add: ulp_def)

lemma fl_nonneg: "0 \<le> x \<Longrightarrow> 0 \<le> fl x"
  using rhe_ge[of 0 "x / ulp x"] ulp_pos[of x] by (simp add: fl_def)

lemma fl_nonpos: "x \<le> 0 \<Longrightarrow> fl x \<le> 0"
  using rhe_le[of "x / ulp x" 0] ulp_pos[of x]
  by (simp add: fl_def mult_le_0_iff divide_le_0_iff)

lemma fl_err_ulp: "\<bar>fl x - x\<bar> \<le> ulp x / 2"
proof (cases "x = 0")
  case True
  then show ?thesis using ulp_pos[of 0] by (simp add: fl_def)
next
  case False
  define u where "u = ulp x"
  have u: "0 < u" by (simp add: u_def ulp_pos)
  define k where "k = round_half_even (x / u)"
  have "\<bar>of_int k - x / u\<bar> \<le> 1 / 2" unfolding k_def by (rule rhe_err)
  then have "\<bar>of_int k - x / u\<bar> * u \<le> 1 / 2 * u" using u by (intro mult_right_mono) simp_all
  moreover have "\<bar>of_int k - x / u\<bar> * u = \<bar>of_int k * u - x\<bar>"
  proof -
    have "\<bar>of_int k - x / u\<bar> * u = \<bar>(of_int k - x / u) * u\<bar>" using u by (simp add: abs_mult)
    also have "(of_int k - x / u) * u = of_int k * u - x" using u by (simp add: left_diff_distrib)
    finally show ?thesis .
  qed
  ultimately show ?thesis using False by (simp add: fl_def u_def k_def)
qed

lemma ulp_le:
  assumes "x \<noteq> 0"
  shows "ulp x \<le> \<bar>x\<bar> / 2 ^ 52 + 1 / 2 ^ 1074"
proof (cases "- 1022 \<le> binade x")
  case True
  then have "ulp x = 2 powi (binade x + (- 52))" by (simp add: ulp_def max_def)
  also have "\<dots> = 2 powi binade x * 2 powi (- 52)" by (rule power_int_add) simp
  also have "\<dots> = 2 powi binade x / 2 ^ 52" by (simp add: power_int_minus_divide)
  also have "\<dots> \<le> \<bar>x\<bar> / 2 ^ 52" using binade_bounds(1)[OF assms] by (intro divide_right_mono) simp_all
  finally show ?thesis by simp
next
  case False
  then have "ulp x = 2 powi (- 1074)" by (simp add: ulp_def max_def)
  also have "\<dots> = 1 / 2 ^ 1074" by (simp add: power_int_minus_divide)
  finally show ?thesis by simp
qed

lemma fl_err: "\<bar>fl x - x\<bar> \<le> \<bar>x\<bar> / 2 ^ 53 + 1 / 2 ^ 1075"
proof (cases "x = 0")
  case True
  then show ?thesis by (simp add: fl_def)
next
  case False
  have "\<bar>fl x - x\<bar> \<le> ulp x / 2" by (rule fl_err_ulp)
  also have "\<dots> \<le> (\<bar>x\<bar> / 2 ^ 52 + 1 / 2 ^ 1074) / 2" using ulp_le[OF False] by simp
  also have "\<dots> = \<bar>x\<bar> / 2 ^ 53 + 1 / 2 ^ 1075" by simp
  finally show ?thesis .
qed

lemma binade_mono:
  assumes "0 < x" "x \<le> y"
  shows "binade x \<le> binade y"
proof (rule ccontr)
  assume "\<not> binade x \<le> binade y"
  then have "binade y + 1 \<le> binade x" by simp
  then have "(2::real) powi (binade y + 1) \<le> 2 powi binade x" by (intro power_int_increasing) simp_all
  moreover have "2 powi binade x \<le> \<bar>x\<bar>" using assms(1) by (intro binade_bounds) simp
  moreover have "\<bar>y\<bar> < 2 powi (binade y + 1)" using assms by (intro binade_bounds) simp
  ultimately show False using assms by simp
qed

lemma fl_mono_pos:
  assumes "0 < x" "x \<le> y"
  shows "fl x \<le> fl y"
proof -
  define ex where "ex = max (binade x) (- 1022)"
  define ey where "ey = max (binade y) (- 1022)"
  define ux :: real where "ux = 2 powi (ex - 52)"
  define uy :: real where "uy = 2 powi (ey - 52)"
  have y: "0 < y" using assms by linarith
  have ux: "0 < ux" and uy: "0 < uy" by (simp_all add: ux_def uy_def)
  have flx: "fl x = of_int (round_half_even (x / ux)) * ux"
    using assms(1) by (simp add: fl_def ulp_def ux_def ex_def)
  have fly: "fl y = of_int (round_half_even (y / uy)) * uy"
    using y by (simp add: fl_def ulp_def uy_def ey_def)
  have le: "ex \<le> ey" using binade_mono[OF assms] by (simp add: ex_def ey_def)
  show ?thesis
  proof (cases "ex = ey")
    case True
    then have "uy = ux" by (simp add: ux_def uy_def)
    moreover have "x / ux \<le> y / ux" using assms(2) ux by (simp add: divide_right_mono)
    ultimately show ?thesis unfolding flx fly using rhe_mono ux by (simp add: mult_right_mono)
  next
    case False
    then have lt: "ex + 1 \<le> ey" using le by simp
    have "\<bar>x\<bar> < 2 powi (binade x + 1)" using assms(1) by (intro binade_bounds) simp
    also have "\<dots> \<le> 2 powi (ex + 1)" by (intro power_int_increasing) (simp_all add: ex_def)
    finally have xlt: "x < 2 powi (ex + 1)" using assms(1) by simp
    have split: "(2::real) powi (ex + 1) = 2 ^ 53 * ux"
    proof -
      have e1: "ex + 1 = 53 + (ex - 52)" by linarith
      have "(2::real) powi (ex + 1) = 2 powi 53 * 2 powi (ex - 52)"
        unfolding e1 by (rule power_int_add) simp
      then show ?thesis by (simp add: ux_def)
    qed
    have "x / ux \<le> 2 ^ 53" using xlt ux unfolding split by (simp add: pos_divide_le_eq)
    then have "x / ux \<le> of_int (2 ^ 53)" by simp
    then have "round_half_even (x / ux) \<le> 2 ^ 53" by (rule rhe_le)
    then have "real_of_int (round_half_even (x / ux)) \<le> 2 ^ 53"
      by (metis of_int_le_iff of_int_numeral of_int_power)
    then have 1: "fl x \<le> 2 powi (ex + 1)" unfolding flx split using ux by (simp add: mult_right_mono)
    have "- 1022 < ey" using lt by (simp add: ex_def)
    then have eyb: "ey = binade y" by (simp add: ey_def max_def split: if_splits)
    have ylo: "2 powi ey \<le> y" using binade_bounds(1)[of y] y by (simp add: eyb)
    have split2: "(2::real) powi ey = 2 ^ 52 * uy"
    proof -
      have e2: "ey = 52 + (ey - 52)" by linarith
      have "(2::real) powi (52 + (ey - 52)) = 2 powi 52 * 2 powi (ey - 52)"
        by (rule power_int_add) simp
      then show ?thesis using e2 by (simp add: uy_def)
    qed
    have "2 ^ 52 \<le> y / uy" using ylo uy unfolding split2 by (simp add: pos_le_divide_eq)
    then have "of_int (2 ^ 52) \<le> y / uy" by simp
    then have "2 ^ 52 \<le> round_half_even (y / uy)" by (rule rhe_ge)
    then have "2 ^ 52 \<le> real_of_int (round_half_even (y / uy))"
      by (metis of_int_le_iff of_int_numeral of_int_power)
    then have 2: "2 powi ey \<le> fl y" unfolding fly split2 using uy by (simp add: mult_right_mono)
    have "(2::real) powi (ex + 1) \<le> 2 powi ey" using lt by (intro power_int_increasing) simp_all
    with 1 2 show ?thesis by linarith
  qed
qed

text \<open>
  A double above the rounded sum is above the exact sum, and a double below the
  rounded difference is below the exact difference: rounding is monotone and leaves a
  double unchanged.
\<close>

lemma gt_fl_sum:
  assumes "is_double s" "0 \<le> c" "s > fl (c + fl 0.1)"
  shows "s - c > fl 0.1"
proof (rule ccontr)
  assume "\<not> s - c > fl 0.1"
  then have le: "s \<le> c + fl 0.1" by simp
  have pos: "0 < c + fl 0.1" using assms(2) by (simp add: fl_tenth)
  have s: "fl s = s" using assms(1) by (simp add: is_double_def)
  show False
  proof (cases "0 < s")
    case True
    from fl_mono_pos[OF True le] s assms(3) show False by simp
  next
    case False
    moreover have "0 \<le> fl (c + fl 0.1)" using pos by (intro fl_nonneg) simp
    ultimately show False using assms(3) by linarith
  qed
qed

lemma lt_fl_diff:
  assumes "is_double c" "0 \<le> c" "c < fl (D - fl 0.1)"
  shows "D - c > fl 0.1"
proof (rule ccontr)
  assume "\<not> D - c > fl 0.1"
  then have le: "D - fl 0.1 \<le> c" by simp
  have c: "fl c = c" using assms(1) by (simp add: is_double_def)
  show False
  proof (cases "0 < D - fl 0.1")
    case True
    from fl_mono_pos[OF True le] c assms(3) show False by simp
  next
    case False
    then have "fl (D - fl 0.1) \<le> 0" by (intro fl_nonpos) simp
    then show False using assms(2,3) by linarith
  qed
qed

text \<open>
  A gap that one of the two guards rejects is no longer than 0.1 plus the rounding
  error of the guard.
\<close>

lemma guard_sum_bound:
  assumes "0 \<le> c" "c \<le> D" "\<not> s > fl (c + fl 0.1)"
  shows "s - c \<le> 0.1 + (D + 1) / 2 ^ 53"
proof -
  define t :: real where "t = 3602879701896397 / 36028797018963968"
  have ft: "fl 0.1 = t" by (simp add: fl_tenth t_def)
  have t: "0 < t" by (simp add: t_def)
  have "\<bar>fl (c + t) - (c + t)\<bar> \<le> \<bar>c + t\<bar> / 2 ^ 53 + 1 / 2 ^ 1075" by (rule fl_err)
  moreover have "\<bar>c + t\<bar> = c + t" using assms(1) t by simp
  ultimately have "fl (c + t) \<le> (c + t) + (c + t) / 2 ^ 53 + 1 / 2 ^ 1075" by linarith
  moreover have "s \<le> fl (c + t)" using assms(3) ft by simp
  moreover have "(c + t) / 2 ^ 53 \<le> (D + t) / 2 ^ 53" using assms(2) by (simp add: divide_right_mono)
  ultimately have "s - c \<le> t + (D + t) / 2 ^ 53 + 1 / 2 ^ 1075" by linarith
  moreover have "t + (D + t) / 2 ^ 53 + 1 / 2 ^ 1075 \<le> 0.1 + (D + 1) / 2 ^ 53"
    by (simp add: t_def add_divide_distrib)
  ultimately show ?thesis by linarith
qed

lemma guard_diff_bound:
  assumes "0 \<le> D" "\<not> c < fl (D - fl 0.1)"
  shows "D - c \<le> 0.1 + (D + 1) / 2 ^ 53"
proof -
  define t :: real where "t = 3602879701896397 / 36028797018963968"
  have ft: "fl 0.1 = t" by (simp add: fl_tenth t_def)
  have t: "0 < t" by (simp add: t_def)
  have "\<bar>fl (D - t) - (D - t)\<bar> \<le> \<bar>D - t\<bar> / 2 ^ 53 + 1 / 2 ^ 1075" by (rule fl_err)
  moreover have "\<bar>D - t\<bar> \<le> D + t" using assms(1) t by simp
  then have "\<bar>D - t\<bar> / 2 ^ 53 \<le> (D + t) / 2 ^ 53" by (simp add: divide_right_mono)
  ultimately have "(D - t) - (D + t) / 2 ^ 53 - 1 / 2 ^ 1075 \<le> fl (D - t)" by linarith
  moreover have "fl (D - t) \<le> c" using assms(2) ft by simp
  ultimately have "D - c \<le> t + (D + t) / 2 ^ 53 + 1 / 2 ^ 1075" by linarith
  moreover have "t + (D + t) / 2 ^ 53 + 1 / 2 ^ 1075 \<le> 0.1 + (D + 1) / 2 ^ 53"
    by (simp add: t_def add_divide_distrib)
  ultimately show ?thesis by linarith
qed

section \<open>Base cases of the inverter\<close>

text \<open>
  Claim C4. For every duration greater than zero, inverting the empty detection list
  gives exactly the single range from 0 to the duration; and inverting the single
  detection from 2 to 4 against a duration of 10 gives exactly the two ranges 0 to 2
  and 4 to 10.
\<close>

theorem getKeepRanges_base_cases:
  "(0 < D \<longrightarrow> getKeepRanges D [] = [\<lparr>range_start = 0, range_end = D\<rparr>]) \<and>
   getKeepRanges 10 [\<lparr>range_start = 2, range_end = 4, confidence = 1.0\<rparr>]
     = [\<lparr>range_start = 0, range_end = 2\<rparr>, \<lparr>range_start = 4, range_end = 10\<rparr>]"
  by (simp add: getKeepRanges_def sweep_def sweep_step_def sortedDetections_def fl_eval)

theorem getKeepRanges_base_cases_witness:
  "(0::real) < 7 \<and> getKeepRanges 7 [] = [\<lparr>range_start = 0, range_end = 7\<rparr>]"
  using getKeepRanges_base_cases [of 7] by simp

text \<open>
  Claim C10. When the video duration is zero (the initial value, before the
  metadata of the video is known), the keep-range computation returns the empty list
  for every detection list, the empty one included, and not the whole-video range.
\<close>

theorem getKeepRanges_zero_duration:
  "getKeepRanges 0 detections = [] \<and> getKeepRanges 0 [] \<noteq> [\<lparr>range_start = 0, range_end = 0\<rparr>]"
  by (simp add: getKeepRanges_def)

section \<open>Defined outputs of the clusterer\<close>

text \<open>
  Claim C5. Clustering the empty timestamp list gives the empty sequence; clustering
  a single timestamp t gives exactly one range that starts and ends at t with
  confidence 1.0; and clustering 1.0, 1.3, 1.6, 5.0 (tolerance 0.5) gives exactly the
  range 1.0 to 1.6 followed by the range 5.0 to 5.0: the gap 3.4 splits, the gaps of
  0.3 merge.
\<close>

theorem processDetections_defined_outputs:
  "processDetections [] = [] \<and>
   processDetections [t] = [\<lparr>range_start = t, range_end = t, confidence = 1.0\<rparr>] \<and>
   processDetections [1.0, 1.3, 1.6, 5.0]
     = [\<lparr>range_start = 1.0, range_end = 1.6, confidence = 1.0\<rparr>,
        \<lparr>range_start = 5.0, range_end = 5.0, confidence = 1.0\<rparr>]"
  by (simp add: processDetections_def TOLERANCE_def)

section \<open>Properties of the overlap ratio\<close>

text \<open>
  Claim C9. For every rectangle A of positive width and height the overlap ratio of A
  with itself is 1; for every two rectangles whose interiors have no point in common
  the ratio is 0; and the ratio of A with B is the ratio of B with A.
\<close>

theorem calculateIoU_properties:
  "(0 < rect_width A \<and> 0 < rect_height A \<longrightarrow> calculateIoU A A = 1) \<and>
   (rect_interior A \<inter> rect_interior B = {} \<longrightarrow> calculateIoU A B = 0) \<and>
   calculateIoU A B = calculateIoU B A"
proof (intro conjI impI)
  assume "0 < rect_width A \<and> 0 < rect_height A"
  then show "calculateIoU A A = 1"
    by (simp add: calculateIoU_def Let_def)
next
  assume apart: "rect_interior A \<inter> rect_interior B = {}"
  show "calculateIoU A B = 0"
  proof (rule ccontr)
    assume nz: "calculateIoU A B \<noteq> 0"
    define xA where "xA = max (rect_x A) (rect_x B)"
    define yA where "yA = max (rect_y A) (rect_y B)"
    define xB where "xB = min (rect_x A + rect_width A) (rect_x B + rect_width B)"
    define yB where "yB = min (rect_y A + rect_height A) (rect_y B + rect_height B)"
    from nz have "\<not> (max 0 (xB - xA) \<le> 0 \<or> max 0 (yB - yA) \<le> 0)"
      unfolding calculateIoU_def Let_def xA_def yA_def xB_def yB_def
      by (auto split: if_splits)
    then have lt: "xA < xB" "yA < yB"
      by (auto simp: max_def split: if_splits)
    have "((xA + xB) / 2, (yA + yB) / 2) \<in> rect_interior A \<inter> rect_interior B"
      using lt unfolding rect_interior_def xA_def yA_def xB_def yB_def
      by (auto simp: max_def min_def field_simps split: if_splits)
    with apart show False by blast
  qed
next
  show "calculateIoU A B = calculateIoU B A"
    by (simp add: calculateIoU_def Let_def max.commute min.commute add.commute)
qed

theorem calculateIoU_properties_witness:
  "calculateIoU \<lparr>rect_x = 0, rect_y = 0, rect_width = 4, rect_height = 3\<rparr>
                \<lparr>rect_x = 0, rect_y = 0, rect_width = 4, rect_height = 3\<rparr> = 1 \<and>
   calculateIoU \<lparr>rect_x = 0, rect_y = 0, rect_width = 4, rect_height = 3\<rparr>
                \<lparr>rect_x = 4, rect_y = 0, rect_width = 2, rect_height = 2\<rparr> = 0"
proof -
  have apart:
    "rect_interior \<lparr>rect_x = 0, rect_y = 0, rect_width = 4, rect_height = 3\<rparr> \<inter>
     rect_interior \<lparr>rect_x = 4, rect_y = 0, rect_width = 2, rect_height = 2\<rparr> = {}"
    by (auto simp: rect_interior_def)
  show ?thesis
    using calculateIoU_properties
            [of "\<lparr>rect_x = 0, rect_y = 0, rect_width = 4, rect_height = 3\<rparr>"
                "\<lparr>rect_x = 0, rect_y = 0, rect_width = 4, rect_height = 3\<rparr>"]
          calculateIoU_properties
            [of "\<lparr>rect_x = 0, rect_y = 0, rect_width = 4, rect_height = 3\<rparr>"
                "\<lparr>rect_x = 4, rect_y = 0, rect_width = 2, rect_height = 2\<rparr>"]
          apart
    by simp
qed

section \<open>Domain bounds of the color ranges\<close>

lemma js_rem_small:
  assumes "- n < a" "a < n"
  shows "js_rem a n = a"
proof -
  have n: "0 < n" using assms by linarith
  have q: "- 1 < a / n" "a / n < 1" using assms n by (simp_all add: field_simps)
  have "0 \<le> a / n \<Longrightarrow> \<lfloor>a / n\<rfloor> = 0" using q by (simp add: floor_eq_iff)
  moreover have "\<not> 0 \<le> a / n \<Longrightarrow> \<lceil>a / n\<rceil> = 0" using q by (simp add: ceiling_eq_iff)
  ultimately show ?thesis by (simp add: js_rem_def)
qed

lemma quot_bounds:
  fixes p q mn mx :: real
  assumes "mn \<le> p" "p \<le> mx" "mn \<le> q" "q \<le> mx" "mx - mn \<noteq> 0"
  shows "- 1 \<le> (p - q) / (mx - mn)" "(p - q) / (mx - mn) \<le> 1"
proof -
  have d: "0 < mx - mn" using assms by linarith
  show "- 1 \<le> (p - q) / (mx - mn)" using assms d by (simp add: field_simps)
  show "(p - q) / (mx - mn) \<le> 1" using assms d by (simp add: field_simps)
qed

text \<open>The hue in OpenCV scale lies between 0 and 180, whichever branch computes it.\<close>

lemma hue_core:
  fixes q1 q2 q3 h0 :: real
  assumes "- 1 \<le> q1" "q1 \<le> 1" "- 1 \<le> q2" "q2 \<le> 1" "- 1 \<le> q3" "q3 \<le> 1"
    and h0: "h0 = (if d0 then 0
                   else if c1 then 60 * js_rem q1 6
                   else if c2 then 60 * (q2 + 2)
                   else if c3 then 60 * (q3 + 4)
                   else 0)"
  shows "0 \<le> (if h0 < 0 then h0 + 360 else h0) / 2 \<and>
         (if h0 < 0 then h0 + 360 else h0) / 2 \<le> 180"
proof -
  have "js_rem q1 6 = q1" using assms(1,2) by (intro js_rem_small) simp_all
  then show ?thesis using assms(1-6) unfolding h0 by auto
qed

lemma clamp_window:
  fixes c t lo hi :: real
  assumes "0 \<le> t" "lo \<le> c" "c \<le> hi"
  shows "max lo (c - t) \<le> min hi (c + t)" "lo \<le> max lo (c - t)" "max lo (c - t) \<le> hi"
    "lo \<le> min hi (c + t)" "min hi (c + t) \<le> hi"
  using assms by auto

lemma getHsvRange_form:
  assumes "0 \<le> r" "r \<le> 255" "0 \<le> g" "g \<le> 255" "0 \<le> b" "b \<le> 255"
  shows "\<exists>cvH cvS cvV.
     0 \<le> cvH \<and> cvH \<le> 180 \<and> 0 \<le> cvS \<and> cvS \<le> 255 \<and> 0 \<le> cvV \<and> cvV \<le> 255 \<and>
     getHsvRange (r, g, b) tol =
       \<lparr>lower = [max 0 (cvH - tol_h tol), max 0 (cvS - tol_s tol), max 0 (cvV - tol_v tol), 0],
        upper = [min 180 (cvH + tol_h tol), min 255 (cvS + tol_s tol),
                 min 255 (cvV + tol_v tol), 255]\<rparr>"
proof -
  define r' g' b' where "r' = r / 255" and "g' = g / 255" and "b' = b / 255"
  define mx where "mx = max (max r' g') b'"
  define mn where "mn = min (min r' g') b'"
  define h0 where "h0 = (if mx - mn = 0 then 0
                   else if mx = r' then 60 * js_rem ((g' - b') / (mx - mn)) 6
                   else if mx = g' then 60 * (((b' - r') / (mx - mn)) + 2)
                   else if mx = b' then 60 * (((r' - g') / (mx - mn)) + 4)
                   else 0)"
  define cvH where "cvH = (if h0 < 0 then h0 + 360 else h0) / 2"
  define cvS where "cvS = (if mx = 0 then 0 else (mx - mn) / mx) * 255"
  define cvV where "cvV = mx * 255"
  have unit: "0 \<le> r'" "r' \<le> 1" "0 \<le> g'" "g' \<le> 1" "0 \<le> b'" "b' \<le> 1"
    using assms by (simp_all add: r'_def g'_def b'_def)
  have bnd: "mn \<le> r'" "r' \<le> mx" "mn \<le> g'" "g' \<le> mx" "mn \<le> b'" "b' \<le> mx"
    by (auto simp: mx_def mn_def)
  have mx01: "0 \<le> mx" "mx \<le> 1" "0 \<le> mn" "mn \<le> mx"
    using unit by (auto simp: mx_def mn_def)
  have H: "0 \<le> cvH \<and> cvH \<le> 180"
  proof (cases "mx - mn = 0")
    case True
    then show ?thesis by (simp add: cvH_def h0_def)
  next
    case False
    show ?thesis unfolding cvH_def
      by (rule hue_core[OF quot_bounds[OF bnd(3,4,5,6) False] quot_bounds[OF bnd(5,6,1,2) False]
            quot_bounds[OF bnd(1,2,3,4) False] h0_def])
  qed
  have S: "0 \<le> cvS \<and> cvS \<le> 255"
  proof (cases "mx = 0")
    case True
    then show ?thesis by (simp add: cvS_def)
  next
    case False
    then have pos: "0 < mx" using mx01 by linarith
    define s where "s = (mx - mn) / mx"
    have "0 \<le> s" unfolding s_def using pos mx01 by (intro divide_nonneg_pos) simp_all
    moreover have "s \<le> 1" unfolding s_def using pos mx01 by (simp add: pos_divide_le_eq)
    moreover have "cvS = s * 255" unfolding cvS_def s_def using False by (simp only: if_False)
    ultimately show ?thesis by simp
  qed
  have V: "0 \<le> cvV \<and> cvV \<le> 255" using mx01 by (simp add: cvV_def)
  have "getHsvRange (r, g, b) tol =
       \<lparr>lower = [max 0 (cvH - tol_h tol), max 0 (cvS - tol_s tol), max 0 (cvV - tol_v tol), 0],
        upper = [min 180 (cvH + tol_h tol), min 255 (cvS + tol_s tol),
                 min 255 (cvV + tol_v tol), 255]\<rparr>"
    unfolding getHsvRange_def Let_def cvH_def cvS_def cvV_def h0_def mx_def mn_def
      r'_def g'_def b'_def prod.case
    by (rule refl)
  with H S V show ?thesis by blast
qed

text \<open>
  Claim C8. For every RGB triple with each channel between 0 and 255 and every
  tolerance with no negative component, the range built by \<^verbatim>\<open>getHsvRange\<close> has its
  lower hue bound at most its upper hue bound, both hue bounds between 0 and 180, and
  the saturation and value bounds (indices 1 and 2) between 0 and 255.
\<close>

theorem getHsvRange_domain_bounds:
  assumes "0 \<le> r" "r \<le> 255" "0 \<le> g" "g \<le> 255" "0 \<le> b" "b \<le> 255"
    and "0 \<le> tol_h tol" "0 \<le> tol_s tol" "0 \<le> tol_v tol"
  shows "lower (getHsvRange (r, g, b) tol) ! 0 \<le> upper (getHsvRange (r, g, b) tol) ! 0 \<and>
         0 \<le> lower (getHsvRange (r, g, b) tol) ! 0 \<and>
         lower (getHsvRange (r, g, b) tol) ! 0 \<le> 180 \<and>
         0 \<le> upper (getHsvRange (r, g, b) tol) ! 0 \<and>
         upper (getHsvRange (r, g, b) tol) ! 0 \<le> 180 \<and>
         0 \<le> lower (getHsvRange (r, g, b) tol) ! 1 \<and>
         lower (getHsvRange (r, g, b) tol) ! 1 \<le> 255 \<and>
         0 \<le> upper (getHsvRange (r, g, b) tol) ! 1 \<and>
         upper (getHsvRange (r, g, b) tol) ! 1 \<le> 255 \<and>
         0 \<le> lower (getHsvRange (r, g, b) tol) ! 2 \<and>
         lower (getHsvRange (r, g, b) tol) ! 2 \<le> 255 \<and>
         0 \<le> upper (getHsvRange (r, g, b) tol) ! 2 \<and>
         upper (getHsvRange (r, g, b) tol) ! 2 \<le> 255"
proof -
  from getHsvRange_form[OF assms(1-6), of tol] obtain cvH cvS cvV where
    c: "0 \<le> cvH" "cvH \<le> 180" "0 \<le> cvS" "cvS \<le> 255" "0 \<le> cvV" "cvV \<le> 255" and
    eq: "getHsvRange (r, g, b) tol =
       \<lparr>lower = [max 0 (cvH - tol_h tol), max 0 (cvS - tol_s tol), max 0 (cvV - tol_v tol), 0],
        upper = [min 180 (cvH + tol_h tol), min 255 (cvS + tol_s tol),
                 min 255 (cvV + tol_v tol), 255]\<rparr>"
    by blast
  show ?thesis
    unfolding eq
    using clamp_window[OF assms(7) c(1,2)] clamp_window[OF assms(8) c(3,4)]
      clamp_window[OF assms(9) c(5,6)]
    by simp
qed

theorem getHsvRange_domain_bounds_witness:
  "lower (getHsvRange (255, 0, 10) \<lparr>tol_h = 10, tol_s = 40, tol_v = 40\<rparr>) ! 0
     \<le> upper (getHsvRange (255, 0, 10) \<lparr>tol_h = 10, tol_s = 40, tol_v = 40\<rparr>) ! 0 \<and>
   upper (getHsvRange (255, 0, 10) \<lparr>tol_h = 10, tol_s = 40, tol_v = 40\<rparr>) ! 0 \<le> 180 \<and>
   upper (getHsvRange (255, 0, 10) \<lparr>tol_h = 10, tol_s = 40, tol_v = 40\<rparr>) ! 1 \<le> 255"
  using getHsvRange_domain_bounds [of 255 0 10 "\<lparr>tol_h = 10, tol_s = 40, tol_v = 40\<rparr>"]
  by simp

section \<open>Acceptance condition of the scanner\<close>

lemma triadCheck_iff:
  "triadCheck hsv profile r \<longleftrightarrow>
     (\<exists>lightCount whiteCount.
        countInRange hsv r (light (bounds profile)) = Some lightCount \<and>
        countInRange hsv r (white (bounds profile)) = Some whiteCount \<and>
        real lightCount / (rect_width r * rect_height r) > 0.01 \<and>
        real whiteCount / (rect_width r * rect_height r) > 0.01)"
  by (simp add: triadCheck_def Let_def split: option.splits)

lemma scan_loop_iff:
  "scan_loop hsv profile e cs \<longleftrightarrow>
     (\<exists>c \<in> set cs. 0.3 \<le> calculateIoU (boundingRect c) e \<and>
                     triadCheck hsv profile (boundingRect c))"
  by (induction cs) (auto simp: Let_def not_less)

text \<open>
  A candidate that passes the spatial lock has a bounding box of positive area, so
  the two ratios of the triad check never divide by zero.
\<close>

lemma spatial_lock_positive_area:
  assumes "0.3 \<le> calculateIoU A B"
  shows "0 < rect_width A * rect_height A"
proof -
  define xA where "xA = max (rect_x A) (rect_x B)"
  define yA where "yA = max (rect_y A) (rect_y B)"
  define xB where "xB = min (rect_x A + rect_width A) (rect_x B + rect_width B)"
  define yB where "yB = min (rect_y A + rect_height A) (rect_y B + rect_height B)"
  from assms have "\<not> (max 0 (xB - xA) \<le> 0 \<or> max 0 (yB - yA) \<le> 0)"
    unfolding calculateIoU_def Let_def xA_def yA_def xB_def yB_def
    by (auto split: if_splits)
  then have lt: "xA < xB" "yA < yB"
    by (auto simp: max_def split: if_splits)
  then have "0 < rect_width A" "0 < rect_height A"
    unfolding xA_def yA_def xB_def yB_def
    by (auto simp: max_def min_def split: if_splits)
  then show ?thesis by simp
qed

text \<open>
  Claim C6. \<^verbatim>\<open>scanFrame\<close> returns true if and only if some contour of the
  background mask has an overlap ratio of at least 0.3 with the projected expected
  rectangle and, in the region of its bounding box, the pixels matching the accent
  range are more than 0.01 of the area and the pixels matching the text range are
  more than 0.01 of the area. The loop walks the contours in the order OpenCV lists
  them, skips those below 0.3 and stops at the first that passes both checks. The
  contours and the counts are those OpenCV reports: with the library not loaded, or
  a library call failing, there are none and the result is false.
\<close>

theorem scanFrame_acceptance:
  "scanFrame cv_loaded srcFrame profile \<longleftrightarrow>
     cv_loaded \<and>
     (\<exists>contours. findContours srcFrame (dark (bounds profile)) = Some contours \<and>
        (\<exists>c \<in> set contours.
           0.3 \<le> calculateIoU (boundingRect c) (expectedRect srcFrame profile) \<and>
           (\<exists>lightCount whiteCount.
              countInRange srcFrame (boundingRect c) (light (bounds profile)) = Some lightCount \<and>
              countInRange srcFrame (boundingRect c) (white (bounds profile)) = Some whiteCount \<and>
              real lightCount / (rect_width (boundingRect c) * rect_height (boundingRect c)) > 0.01 \<and>
              real whiteCount / (rect_width (boundingRect c) * rect_height (boundingRect c)) > 0.01)))"
  by (simp add: scanFrame_def scan_loop_iff triadCheck_iff split: option.splits)

theorem scanFrame_acceptance_witness:
  "scanFrame True sample_frame sample_profile"
proof -
  have f: "fl 0 = 0" "fl 100 = 100" by (simp_all add: fl_eval)
  have "calculateIoU \<lparr>rect_x = 0, rect_y = 0, rect_width = 100, rect_height = 100\<rparr>
          (expectedRect sample_frame sample_profile) = 1"
    by (simp add: expectedRect_def sample_frame_def sample_profile_def calculateIoU_def f)
  then show ?thesis
    using scanFrame_acceptance [of True sample_frame sample_profile]
    by (simp add: sample_frame_def sample_profile_def)
qed

section \<open>Failure condition of the calibrator\<close>

lemma largest_loop_props:
  "largest_loop cs m b = (m', b') \<Longrightarrow>
     m \<le> m' \<and> (\<forall>c \<in> set cs. contourArea c \<le> m') \<and>
     (m' = m \<and> b' = b \<or>
      m < m' \<and> (\<exists>c \<in> set cs. contourArea c = m' \<and> b' = Some (boundingRect c)))"
proof (induction cs arbitrary: m b)
  case Nil
  then show ?case by simp
next
  case (Cons c cs)
  show ?case
  proof (cases "contourArea c > m")
    case True
    with Cons.prems have "largest_loop cs (contourArea c) (Some (boundingRect c)) = (m', b')"
      by (simp add: Let_def)
    from Cons.IH[OF this] True show ?thesis by fastforce
  next
    case False
    with Cons.prems have "largest_loop cs m b = (m', b')"
      by (simp add: Let_def)
    from Cons.IH[OF this] False show ?thesis by fastforce
  qed
qed

lemma calibrate_failed_iff:
  "calibrateReference cv_loaded src = Inl CalibrationFailed \<longleftrightarrow>
     cv_loaded \<and>
     (\<exists>contours.
        findContours src (getHsvRange MENU_DARK \<lparr>tol_h = 20, tol_s = 50, tol_v = 50\<rparr>)
          = Some contours \<and>
        \<not> (\<exists>c \<in> set contours. contourArea c > real (cols src * rows src) * 0.01))"
proof (cases "cv_loaded")
  case False
  then show ?thesis by (simp add: calibrateReference_def)
next
  case True
  show ?thesis
  proof (cases "findContours src (getHsvRange MENU_DARK \<lparr>tol_h = 20, tol_s = 50, tol_v = 50\<rparr>)")
    case None
    then show ?thesis using True by (simp add: calibrateReference_def)
  next
    case (Some cs)
    obtain m' b' where ll: "largest_loop cs 0 None = (m', b')"
      by (cases "largest_loop cs 0 None")
    from largest_loop_props[OF ll] have
      p2: "\<forall>c \<in> set cs. contourArea c \<le> m'" and
      p3: "m' = 0 \<and> b' = None \<or>
           0 < m' \<and> (\<exists>c \<in> set cs. contourArea c = m' \<and> b' = Some (boundingRect c))"
      by simp_all
    define T where "T = real (cols src * rows src) * 0.01"
    have thr: "0 \<le> T" by (simp add: T_def)
    have "(case b' of None \<Rightarrow> True | Some best \<Rightarrow> \<not> m' > T)
            \<longleftrightarrow> \<not> (\<exists>c \<in> set cs. contourArea c > T)"
    proof (cases "m' = 0 \<and> b' = None")
      case True
      then show ?thesis using p2 thr by fastforce
    next
      case False
      with p3 obtain c where
        c: "0 < m'" "c \<in> set cs" "contourArea c = m'" "b' = Some (boundingRect c)"
        by auto
      show ?thesis
      proof (cases "m' > T")
        case True
        then show ?thesis using c by auto
      next
        case False
        then show ?thesis using c p2 by fastforce
      qed
    qed
    then show ?thesis using True Some ll
      by (auto simp: calibrateReference_def Let_def T_def split: option.splits)
  qed
qed

lemma calibrate_success:
  assumes "findContours src (getHsvRange MENU_DARK \<lparr>tol_h = 20, tol_s = 50, tol_v = 50\<rparr>)
             = Some contours"
    and "\<exists>c \<in> set contours. contourArea c > real (cols src * rows src) * 0.01"
  shows "\<exists>profile best. calibrateReference True src = Inr profile \<and> best \<in> set contours \<and>
           (\<forall>c \<in> set contours. contourArea c \<le> contourArea best) \<and>
           normalizedBox (spatial profile) =
             \<lparr>nb_x = rect_x (boundingRect best) / real (cols src),
              nb_y = rect_y (boundingRect best) / real (rows src),
              nb_w = rect_width (boundingRect best) / real (cols src),
              nb_h = rect_height (boundingRect best) / real (rows src)\<rparr>"
proof -
  obtain m' b' where ll: "largest_loop contours 0 None = (m', b')"
    by (cases "largest_loop contours 0 None")
  from largest_loop_props[OF ll] have
    p2: "\<forall>c \<in> set contours. contourArea c \<le> m'" and
    p3: "m' = 0 \<and> b' = None \<or>
         0 < m' \<and> (\<exists>c \<in> set contours. contourArea c = m' \<and> b' = Some (boundingRect c))"
    by simp_all
  have thr: "0 \<le> real (cols src * rows src) * 0.01" by simp
  from assms(2) p2 have big: "m' > real (cols src * rows src) * 0.01" by fastforce
  with thr have "0 < m'" by linarith
  with p3 obtain best where
    best: "best \<in> set contours" "contourArea best = m'" "b' = Some (boundingRect best)"
    by auto
  define profile where "profile =
     \<lparr>bounds = \<lparr>dark = getHsvRange MENU_DARK \<lparr>tol_h = 20, tol_s = 50, tol_v = 50\<rparr>,
                light = getHsvRange MENU_LIGHT \<lparr>tol_h = 15, tol_s = 50, tol_v = 50\<rparr>,
                white = whiteBounds\<rparr>,
      spatial = \<lparr>normalizedBox =
                   \<lparr>nb_x = rect_x (boundingRect best) / real (cols src),
                    nb_y = rect_y (boundingRect best) / real (rows src),
                    nb_w = rect_width (boundingRect best) / real (cols src),
                    nb_h = rect_height (boundingRect best) / real (rows src)\<rparr>,
                 aspectRatio = rect_width (boundingRect best) / rect_height (boundingRect best)\<rparr>\<rparr>"
  have 1: "calibrateReference True src = Inr profile"
    using assms(1) ll best(3) big by (simp add: calibrateReference_def Let_def profile_def)
  have 2: "normalizedBox (spatial profile) =
             \<lparr>nb_x = rect_x (boundingRect best) / real (cols src),
              nb_y = rect_y (boundingRect best) / real (rows src),
              nb_w = rect_width (boundingRect best) / real (cols src),
              nb_h = rect_height (boundingRect best) / real (rows src)\<rparr>"
    by (simp add: profile_def)
  have 3: "\<forall>c \<in> set contours. contourArea c \<le> contourArea best"
    using p2 best(2) by simp
  show ?thesis using 1 2 3 best(1) by blast
qed

text \<open>
  Claim C7. With the contours of the background mask as OpenCV reports them,
  \<^verbatim>\<open>calibrateReference\<close> throws the calibration error if and only if no contour has an
  area above 1% of the pixel count \<open>cols * rows\<close> of the reference image. When some
  contour is above the threshold (and the image has positive width and height), a
  profile is returned whose normalized box is the bounding box of a contour of
  maximal area, divided by the width and the height of the image.
\<close>

theorem calibrateReference_failure_condition:
  "(calibrateReference cv_loaded src = Inl CalibrationFailed \<longleftrightarrow>
      cv_loaded \<and>
      (\<exists>contours.
         findContours src (getHsvRange MENU_DARK \<lparr>tol_h = 20, tol_s = 50, tol_v = 50\<rparr>)
           = Some contours \<and>
         \<not> (\<exists>c \<in> set contours. contourArea c > real (cols src * rows src) * 0.01))) \<and>
   (cv_loaded \<and> 0 < cols src \<and> 0 < rows src \<and>
    findContours src (getHsvRange MENU_DARK \<lparr>tol_h = 20, tol_s = 50, tol_v = 50\<rparr>)
      = Some contours \<and>
    (\<exists>c \<in> set contours. contourArea c > real (cols src * rows src) * 0.01) \<longrightarrow>
    (\<exists>profile best.
       calibrateReference cv_loaded src = Inr profile \<and> best \<in> set contours \<and>
       (\<forall>c \<in> set contours. contourArea c \<le> contourArea best) \<and>
       normalizedBox (spatial profile) =
         \<lparr>nb_x = rect_x (boundingRect best) / real (cols src),
          nb_y = rect_y (boundingRect best) / real (rows src),
          nb_w = rect_width (boundingRect best) / real (cols src),
          nb_h = rect_height (boundingRect best) / real (rows src)\<rparr>))"
proof (intro conjI impI)
  show "calibrateReference cv_loaded src = Inl CalibrationFailed \<longleftrightarrow>
      cv_loaded \<and>
      (\<exists>contours.
         findContours src (getHsvRange MENU_DARK \<lparr>tol_h = 20, tol_s = 50, tol_v = 50\<rparr>)
           = Some contours \<and>
         \<not> (\<exists>c \<in> set contours. contourArea c > real (cols src * rows src) * 0.01))"
    by (rule calibrate_failed_iff)
next
  assume a: "cv_loaded \<and> 0 < cols src \<and> 0 < rows src \<and>
    findContours src (getHsvRange MENU_DARK \<lparr>tol_h = 20, tol_s = 50, tol_v = 50\<rparr>)
      = Some contours \<and>
    (\<exists>c \<in> set contours. contourArea c > real (cols src * rows src) * 0.01)"
  then have loaded: "cv_loaded = True" by simp
  from a have
    fc: "findContours src (getHsvRange MENU_DARK \<lparr>tol_h = 20, tol_s = 50, tol_v = 50\<rparr>)
           = Some contours" and
    big: "\<exists>c \<in> set contours. contourArea c > real (cols src * rows src) * 0.01"
    by simp_all
  show "\<exists>profile best.
       calibrateReference cv_loaded src = Inr profile \<and> best \<in> set contours \<and>
       (\<forall>c \<in> set contours. contourArea c \<le> contourArea best) \<and>
       normalizedBox (spatial profile) =
         \<lparr>nb_x = rect_x (boundingRect best) / real (cols src),
          nb_y = rect_y (boundingRect best) / real (rows src),
          nb_w = rect_width (boundingRect best) / real (cols src),
          nb_h = rect_height (boundingRect best) / real (rows src)\<rparr>"
    unfolding loaded by (rule calibrate_success[OF fc big])
qed

theorem calibrateReference_failure_condition_witness:
  "calibrateReference True sample_reference \<noteq> Inl CalibrationFailed \<and>
   (\<exists>profile. calibrateReference True sample_reference = Inr profile \<and>
      normalizedBox (spatial profile) = \<lparr>nb_x = 10 / 100, nb_y = 20 / 100, nb_w = 30 / 100, nb_h = 40 / 100\<rparr>)"
  using calibrateReference_failure_condition
          [of True sample_reference
              "[\<lparr>contourArea = 500,
                 boundingRect = \<lparr>rect_x = 10, rect_y = 20, rect_width = 30, rect_height = 40\<rparr>\<rparr>]"]
  by (auto simp: sample_reference_def)

section \<open>The sweep of the inverter\<close>

lemma sweep_step_simp:
  "sweep_step det (keep, c) =
     (if range_start det > fl (c + fl 0.1)
      then keep @ [\<lparr>range_start = c, range_end = range_start det\<rparr>] else keep,
      max c (range_end det))"
  by (simp add: sweep_step_def)


text \<open>The sweep only appends to the list of kept ranges.\<close>

lemma fold_sweep_prefix:
  "\<exists>ext. fst (fold sweep_step ds (keep, c)) = keep @ ext"
proof (induction ds arbitrary: keep c)
  case Nil
  then show ?case by simp
next
  case (Cons d ds)
  obtain ext where
    "fst (fold sweep_step ds (if range_start d > fl (c + fl 0.1)
            then keep @ [\<lparr>range_start = c, range_end = range_start d\<rparr>] else keep,
          max c (range_end d))) =
     (if range_start d > fl (c + fl 0.1)
            then keep @ [\<lparr>range_start = c, range_end = range_start d\<rparr>] else keep) @ ext"
    using Cons.IH by blast
  then show ?case by (auto simp: sweep_step_simp)
qed


text \<open>
  On a sorted, disjoint list within \<open>[0, D]\<close>, every gap is returned or is no longer
  than 0.1 plus the rounding allowance.
\<close>

lemma fold_sweep_gaps:
  assumes "sorted_wrt (\<lambda>a b. range_end a \<le> range_start b) ds"
    and "\<forall>d \<in> set ds. c \<le> range_start d \<and> range_start d \<le> range_end d \<and> range_end d \<le> D"
    and "0 \<le> c" "c \<le> D"
    and "fold sweep_step ds (keep, c) = (keep', c')"
  shows "\<forall>g \<in> set (gaps_from c ds D).
           g \<in> set (keep' @ (if c' < fl (D - fl 0.1)
                               then [\<lparr>range_start = c', range_end = D\<rparr>] else [])) \<or>
           range_end g - range_start g \<le> 0.1 + (D + 1) / 2 ^ 53"
  using assms
proof (induction ds arbitrary: keep c)
  case Nil
  then have "keep' = keep" "c' = c" by simp_all
  then show ?case
    using guard_diff_bound[of D c] Nil.prems(3,4) by auto
next
  case (Cons d ds)
  define keep1 where "keep1 =
    (if range_start d > fl (c + fl 0.1)
     then keep @ [\<lparr>range_start = c, range_end = range_start d\<rparr>] else keep)"
  have mx: "max c (range_end d) = range_end d" using Cons.prems(2) by simp
  have step: "fold sweep_step ds (keep1, range_end d) = (keep', c')"
    using Cons.prems(5) by (simp add: sweep_step_simp keep1_def mx)
  have srt: "sorted_wrt (\<lambda>a b. range_end a \<le> range_start b) ds" using Cons.prems(1) by simp
  have nxt: "\<forall>e \<in> set ds. range_end d \<le> range_start e \<and> range_start e \<le> range_end e \<and>
               range_end e \<le> D"
    using Cons.prems(1,2) by simp
  have e0: "0 \<le> range_end d" "range_end d \<le> D" using Cons.prems(2,3) by auto
  note ih = Cons.IH[OF srt nxt e0 step]
  have head: "\<lparr>range_start = c, range_end = range_start d\<rparr>
                \<in> set (keep' @ (if c' < fl (D - fl 0.1)
                                 then [\<lparr>range_start = c', range_end = D\<rparr>] else [])) \<or>
              range_start d - c \<le> 0.1 + (D + 1) / 2 ^ 53"
  proof (cases "range_start d > fl (c + fl 0.1)")
    case True
    then have "\<lparr>range_start = c, range_end = range_start d\<rparr> \<in> set keep1"
      by (simp add: keep1_def)
    moreover from fold_sweep_prefix[of ds keep1 "range_end d"] step
    obtain ext where "keep' = keep1 @ ext" by auto
    ultimately show ?thesis by simp
  next
    case False
    then show ?thesis using guard_sum_bound[of c D "range_start d"] Cons.prems(3,4) by simp
  qed
  show ?case using head ih by simp
qed

lemma getKeepRanges_gaps:
  assumes "D \<noteq> 0" "sorted_disjoint_within D dets"
  shows "\<forall>g \<in> set (gaps D dets).
           g \<in> set (getKeepRanges D dets) \<or>
           range_end g - range_start g \<le> 0.1 + (D + 1) / 2 ^ 53"
proof (cases "dets = []")
  case True
  then show ?thesis using assms(1) by (simp add: getKeepRanges_def gaps_def)
next
  case False
  have st: "sorted (map range_start dets)"
    using assms(2) unfolding sorted_disjoint_within_def
    by (induction dets) (auto intro: order_trans)
  then have sd: "sortedDetections dets = dets"
    by (simp add: sortedDetections_def sort_key_id_if_sorted)
  obtain keep' c' where f: "fold sweep_step dets ([], 0) = (keep', c')"
    by (cases "fold sweep_step dets ([], 0)")
  obtain d where d: "d \<in> set dets" using False by (cases dets) auto
  have D: "0 \<le> D" using assms(2) d unfolding sorted_disjoint_within_def by fastforce
  have "\<forall>g \<in> set (gaps_from 0 dets D).
           g \<in> set (keep' @ (if c' < fl (D - fl 0.1)
                               then [\<lparr>range_start = c', range_end = D\<rparr>] else [])) \<or>
           range_end g - range_start g \<le> 0.1 + (D + 1) / 2 ^ 53"
    using assms(2) D unfolding sorted_disjoint_within_def
    by (intro fold_sweep_gaps[OF _ _ _ _ f]) auto
  moreover have "getKeepRanges D dets =
      keep' @ (if c' < fl (D - fl 0.1) then [\<lparr>range_start = c', range_end = D\<rparr>] else [])"
    using assms(1) False f sd by (simp add: getKeepRanges_def sweep_def)
  ultimately show ?thesis by (simp add: gaps_def)
qed

lemma point_in_detection_or_gap:
  assumes "sorted_wrt (\<lambda>a b. range_end a \<le> range_start b) ds"
    and "\<forall>d \<in> set ds. range_start d \<le> range_end d"
    and "c \<le> p" "p \<le> D"
  shows "(\<exists>d \<in> set ds. in_range p d) \<or> (\<exists>g \<in> set (gaps_from c ds D). in_range p g)"
  using assms
proof (induction ds arbitrary: c)
  case Nil
  then show ?case by (simp add: in_range_def)
next
  case (Cons d ds)
  consider "p \<le> range_start d" | "range_start d \<le> p" "p \<le> range_end d" | "range_end d \<le> p"
    by linarith
  then show ?case
  proof cases
    case 1
    then show ?thesis using Cons.prems(3) by (simp add: in_range_def)
  next
    case 2
    then show ?thesis by (simp add: in_range_def)
  next
    case 3
    have "(\<exists>e \<in> set ds. in_range p e) \<or> (\<exists>g \<in> set (gaps_from (range_end d) ds D). in_range p g)"
      using Cons.prems by (intro Cons.IH) (simp_all add: 3)
    then show ?thesis by auto
  qed
qed

text \<open>
  An invariant of the sweep over doubles, for any relation \<open>R\<close> that is kept when its
  right side grows: the ranges appended so far are chained by \<open>R\<close>, end to start,
  they end \<open>R\<close>-before the cursor, each is longer than 0.1, and the cursor is a
  double that is not negative.
\<close>

lemma fold_sweep_inv:
  fixes R :: "real \<Rightarrow> real \<Rightarrow> bool"
  assumes R: "\<And>x y z. R x y \<Longrightarrow> y \<le> z \<Longrightarrow> R x z"
    and "\<forall>d \<in> set ds. is_double (range_start d) \<and> is_double (range_end d) \<and>
                        R (range_start d) (range_end d)"
    and "sorted_wrt (\<lambda>a b. R (range_end a) (range_start b)) keep"
    and "\<forall>k \<in> set keep. R (range_end k) c \<and> 0.1 < range_end k - range_start k"
    and "is_double c \<and> 0 \<le> c"
    and "fold sweep_step ds (keep, c) = (keep', c')"
  shows "sorted_wrt (\<lambda>a b. R (range_end a) (range_start b)) keep' \<and>
         (\<forall>k \<in> set keep'. R (range_end k) c' \<and> 0.1 < range_end k - range_start k) \<and>
         is_double c' \<and> 0 \<le> c'"
  using assms(2-)
proof (induction ds arbitrary: keep c)
  case Nil
  then show ?case by simp
next
  case (Cons d ds)
  define keep1 where "keep1 =
    (if range_start d > fl (c + fl 0.1)
     then keep @ [\<lparr>range_start = c, range_end = range_start d\<rparr>] else keep)"
  define c1 where "c1 = max c (range_end d)"
  have step: "fold sweep_step ds (keep1, c1) = (keep', c')"
    using Cons.prems(5) by (simp add: sweep_step_simp keep1_def c1_def)
  have dR: "R (range_start d) (range_end d)" using Cons.prems(1) by simp
  have dd: "is_double (range_start d)" "is_double (range_end d)" using Cons.prems(1) by simp_all
  have old: "\<forall>k \<in> set keep. R (range_end k) c1"
    using Cons.prems(3) R[of _ c c1] by (auto simp: c1_def)
  have new: "R (range_start d) c1" using R[OF dR, of c1] by (simp add: c1_def)
  have long: "0.1 < range_start d - c" if "range_start d > fl (c + fl 0.1)"
    using gt_fl_sum[OF dd(1) _ that] Cons.prems(4) by (simp add: fl_tenth)
  have 1: "sorted_wrt (\<lambda>a b. R (range_end a) (range_start b)) keep1"
    using Cons.prems(2,3) by (auto simp: keep1_def sorted_wrt_append)
  have 2: "\<forall>k \<in> set keep1. R (range_end k) c1 \<and> 0.1 < range_end k - range_start k"
    using Cons.prems(3) old new long by (auto simp: keep1_def)
  have 3: "is_double c1 \<and> 0 \<le> c1"
    using Cons.prems(4) dd(2) by (auto simp: c1_def max_def)
  show ?case using Cons.IH[OF _ 1 2 3 step] Cons.prems(1) by simp
qed

lemma getKeepRanges_inv:
  fixes R :: "real \<Rightarrow> real \<Rightarrow> bool"
  assumes R: "\<And>x y z. R x y \<Longrightarrow> y \<le> z \<Longrightarrow> R x z"
    and "\<forall>d \<in> set dets. is_double (range_start d) \<and> is_double (range_end d) \<and>
                          R (range_start d) (range_end d)"
    and "0.1 < D"
  shows "sorted_wrt (\<lambda>a b. R (range_end a) (range_start b)) (getKeepRanges D dets) \<and>
         (\<forall>k \<in> set (getKeepRanges D dets). 0.1 < range_end k - range_start k)"
proof (cases "dets = []")
  case True
  then show ?thesis using assms(3) by (auto simp: getKeepRanges_def)
next
  case False
  obtain keep' c' where f: "fold sweep_step (sortedDetections dets) ([], 0) = (keep', c')"
    by (cases "fold sweep_step (sortedDetections dets) ([], 0)")
  have ds: "\<forall>d \<in> set (sortedDetections dets). is_double (range_start d) \<and>
              is_double (range_end d) \<and> R (range_start d) (range_end d)"
    using assms(2) by (simp add: sortedDetections_def)
  have z: "is_double 0 \<and> (0::real) \<le> 0" by (simp add: is_double_def fl_def)
  from fold_sweep_inv[of R, OF R ds _ _ z f] have
    inv: "sorted_wrt (\<lambda>a b. R (range_end a) (range_start b)) keep'"
         "\<forall>k \<in> set keep'. R (range_end k) c' \<and> 0.1 < range_end k - range_start k"
         "is_double c'" "0 \<le> c'"
    by simp_all
  have eq: "getKeepRanges D dets =
      keep' @ (if c' < fl (D - fl 0.1) then [\<lparr>range_start = c', range_end = D\<rparr>] else [])"
    using False assms(3) f by (simp add: getKeepRanges_def sweep_def)
  have last: "0.1 < D - c'" if "c' < fl (D - fl 0.1)"
    using lt_fl_diff[OF inv(3,4) that] by (simp add: fl_tenth)
  show ?thesis unfolding eq using inv(1,2) last by (auto simp: sorted_wrt_append)
qed

section \<open>Round-trip coverage\<close>

text \<open>
  Claim C1, as the specification states it, fails. With duration 10 and the single
  detection from 0.1 to 10, nothing is kept, and the point 0.05 lies in no detection
  and in the gap from 0 to 0.1, whose length is not below 0.1. With duration 2 and
  the single detection from 0 to 1.9, nothing is kept either: the double difference
  \<^verbatim>\<open>2 - 0.1\<close> is the double 1.9, so the final guard fails, and the point 1.95 lies
  only in the gap from 1.9 to 2, whose exact length is above 0.1.
\<close>

theorem roundtrip_strict_gap_counterexample:
  "sorted_disjoint_within 10 [\<lparr>range_start = fl 0.1, range_end = 10, confidence = 1.0\<rparr>] \<and>
   getKeepRanges 10 [\<lparr>range_start = fl 0.1, range_end = 10, confidence = 1.0\<rparr>] = [] \<and>
   \<not> roundtrip_covered True 10 [\<lparr>range_start = fl 0.1, range_end = 10, confidence = 1.0\<rparr>] 0.05 \<and>
   sorted_disjoint_within 2 [\<lparr>range_start = 0, range_end = fl 1.9, confidence = 1.0\<rparr>] \<and>
   getKeepRanges 2 [\<lparr>range_start = 0, range_end = fl 1.9, confidence = 1.0\<rparr>] = [] \<and>
   \<not> roundtrip_covered True 2 [\<lparr>range_start = 0, range_end = fl 1.9, confidence = 1.0\<rparr>] 1.95"
  by (simp add: sorted_disjoint_within_def roundtrip_covered_def getKeepRanges_def gaps_def
      in_range_def sweep_def sweep_step_def sortedDetections_def fl_eval)

text \<open>
  Claim C1, amended. For every duration D greater than zero and every sorted,
  pairwise disjoint list of detections contained in \<open>[0, D]\<close>, every point of
  \<open>[0, D]\<close> lies in a detection, or in a range returned by \<^verbatim>\<open>getKeepRanges\<close>, or in
  a gap whose length is at most \<open>0.1 + (D + 1) / 2 ^ 53\<close>: the two guards are strict
  and compare with the rounded double sum and difference, so a gap of 0.1, or of
  0.1 and one rounding error more, is dropped as well.
\<close>

theorem roundtrip_coverage_up_to_minSegment:
  assumes "0 < D" "sorted_disjoint_within D dets" "0 \<le> p" "p \<le> D"
  shows "roundtrip_covered False D dets p"
proof -
  have "(\<exists>d \<in> set dets. in_range p d) \<or> (\<exists>g \<in> set (gaps_from 0 dets D). in_range p g)"
    using assms(2-4) unfolding sorted_disjoint_within_def
    by (intro point_in_detection_or_gap) auto
  moreover
  { fix g assume g: "g \<in> set (gaps D dets)" "in_range p g"
    from getKeepRanges_gaps[of D dets] assms(1,2) g(1)
    have "g \<in> set (getKeepRanges D dets) \<or>
          range_end g - range_start g \<le> 0.1 + (D + 1) / 2 ^ 53"
      by simp
    then have "roundtrip_covered False D dets p"
      using g by (auto simp: roundtrip_covered_def) }
  ultimately show ?thesis by (auto simp: roundtrip_covered_def gaps_def)
qed

theorem roundtrip_coverage_up_to_minSegment_witness:
  "roundtrip_covered False 2 [\<lparr>range_start = 0, range_end = fl 1.9, confidence = 1.0\<rparr>] 1.95"
proof -
  have v: "fl 1.9 = 4278419646001971 / 2251799813685248" by (simp add: fl_eval)
  show ?thesis
    using roundtrip_coverage_up_to_minSegment
            [of 2 "[\<lparr>range_start = 0, range_end = fl 1.9, confidence = 1.0\<rparr>]" "1.95"]
    by (simp add: sorted_disjoint_within_def v)
qed

section \<open>Invariant of the returned ranges\<close>

text \<open>
  Claim C2. For every duration above 0.1 and every list of detections (their times
  being doubles) with \<open>start \<le> end\<close> each, the ranges returned by \<^verbatim>\<open>getKeepRanges\<close>
  are pairwise disjoint, ascending by start, and each longer than 0.1. Disjoint is
  as in \<open>disjoint_ranges\<close>; when every detection has \<open>start < end\<close>, each returned
  range even ends strictly before the next one starts.
\<close>

theorem getKeepRanges_output_invariant:
  assumes "0.1 < D"
    and "\<forall>d \<in> set dets. is_double (range_start d) \<and> is_double (range_end d) \<and>
                          range_start d \<le> range_end d"
  shows "(\<forall>i < length (getKeepRanges D dets). \<forall>j < length (getKeepRanges D dets).
            i \<noteq> j \<longrightarrow> disjoint_ranges (getKeepRanges D dets ! i) (getKeepRanges D dets ! j)) \<and>
         sorted_wrt (\<lambda>a b. range_start a < range_start b) (getKeepRanges D dets) \<and>
         (\<forall>k \<in> set (getKeepRanges D dets). 0.1 < range_end k - range_start k) \<and>
         ((\<forall>d \<in> set dets. range_start d < range_end d) \<longrightarrow>
            sorted_wrt (\<lambda>a b. range_end a < range_start b) (getKeepRanges D dets))"
proof -
  define ks where "ks = getKeepRanges D dets"
  have inv: "sorted_wrt (\<lambda>a b. range_end a \<le> range_start b) ks"
            "\<forall>k \<in> set ks. 0.1 < range_end k - range_start k"
    using getKeepRanges_inv[of "(\<le>)" dets D] assms by (simp_all add: ks_def)
  have nth: "\<And>i j. i < j \<Longrightarrow> j < length ks \<Longrightarrow> range_end (ks ! i) \<le> range_start (ks ! j)"
    using inv(1) by (simp add: sorted_wrt_iff_nth_less)
  have 1: "\<forall>i < length ks. \<forall>j < length ks. i \<noteq> j \<longrightarrow> disjoint_ranges (ks ! i) (ks ! j)"
  proof (intro allI impI)
    fix i j assume "i < length ks" "j < length ks" "i \<noteq> j"
    then consider "i < j" | "j < i" by linarith
    then show "disjoint_ranges (ks ! i) (ks ! j)"
      using nth \<open>i < length ks\<close> \<open>j < length ks\<close> by cases (auto simp: disjoint_ranges_def)
  qed
  have 2: "sorted_wrt (\<lambda>a b. range_start a < range_start b) ks"
    unfolding sorted_wrt_iff_nth_less
  proof (intro allI impI)
    fix i j assume ij: "i < j" "j < length ks"
    then have "ks ! i \<in> set ks" by simp
    with inv(2) have "range_start (ks ! i) < range_end (ks ! i)" by fastforce
    with nth[OF ij] show "range_start (ks ! i) < range_start (ks ! j)" by linarith
  qed
  have 3: "(\<forall>d \<in> set dets. range_start d < range_end d) \<longrightarrow>
            sorted_wrt (\<lambda>a b. range_end a < range_start b) ks"
  proof
    assume "\<forall>d \<in> set dets. range_start d < range_end d"
    with assms(2) have "\<forall>d \<in> set dets. is_double (range_start d) \<and> is_double (range_end d) \<and>
                          range_start d < range_end d"
      by simp
    from getKeepRanges_inv[of "(<)" dets D, OF _ this assms(1)]
    show "sorted_wrt (\<lambda>a b. range_end a < range_start b) ks" by (simp add: ks_def)
  qed
  show ?thesis using 1 2 3 inv(2) unfolding ks_def by blast
qed

theorem getKeepRanges_output_invariant_witness:
  "sorted_wrt (\<lambda>a b. range_start a < range_start b)
     (getKeepRanges 10 [\<lparr>range_start = 2, range_end = 4, confidence = 1.0\<rparr>]) \<and>
   sorted_wrt (\<lambda>a b. range_end a < range_start b)
     (getKeepRanges 10 [\<lparr>range_start = 2, range_end = 4, confidence = 1.0\<rparr>])"
proof -
  have d: "is_double 2" "is_double 4" by (simp_all add: is_double_def fl_eval)
  show ?thesis
    using getKeepRanges_output_invariant
            [of 10 "[\<lparr>range_start = 2, range_end = 4, confidence = 1.0\<rparr>]"] d
    by simp
qed

section \<open>The boundary of the minimum-segment guard\<close>



end
